theory Spec2Isabelle
  imports Main "HOL-Library.Sublist"
begin

section \<open>Lines, whitespace and delimiters\<close>

text \<open>
  A line is a Python \<open>str\<close> as \<open>readlines\<close> returns it, trailing newline included.
  It is modelled as a \<open>string\<close>; a \<open>char\<close> stands for a code point below 256.
\<close>

type_synonym line = string

text \<open>
  \<open>str.isspace\<close> on the code points below 256: TAB, LF, VT, FF, CR, the four
  separators FS, GS, RS, US, the space, NEL and the no-break space.
\<close>

definition isspace :: "char \<Rightarrow> bool" where
  "isspace c =
     (let n = (of_char c :: nat)
      in (9 \<le> n \<and> n \<le> 13) \<or> (28 \<le> n \<and> n \<le> 32) \<or> n = 133 \<or> n = 160)"

text \<open>\<open>s.strip()\<close>: leading and trailing whitespace removed.\<close>

definition strip :: "string \<Rightarrow> string" where
  "strip s = rev (dropWhile isspace (rev (dropWhile isspace s)))"

text \<open>
  \<open>s.split()\<close> with no argument: the maximal runs of characters that are not
  whitespace, in order. The first argument is the word being read.
\<close>

fun split_from :: "string \<Rightarrow> string \<Rightarrow> string list" where
  "split_from w [] = (if w = [] then [] else [w])"
| "split_from w (c # cs) =
     (if isspace c then (if w = [] then split_from [] cs else w # split_from [] cs)
      else split_from (w @ [c]) cs)"

definition split :: "string \<Rightarrow> string list" where
  "split s = split_from [] s"

text \<open>\<open>line_words = len(line.split())\<close>, a Python integer.\<close>

definition line_words :: "line \<Rightarrow> int" where
  "line_words line = int (length (split line))"

text \<open>
  The delimiter configuration is either one string or a list of strings
  (``\<open>delimiters\<close>: A single delimiter string or a list of delimiter strings'').
\<close>

datatype delimiters = Str string | Strs "string list"

text \<open>
  Iterating over the value (\<open>for d in delimiters\<close>): a list yields its members, a
  string yields its characters, each as a one-character string.
\<close>

fun iterate :: "delimiters \<Rightarrow> string list" where
  "iterate (Strs ds) = ds"
| "iterate (Str s) = map (\<lambda>c. [c]) s"

text \<open>
  \<open>if isinstance(delimiters, str): delimiters = [delimiters]\<close>, the normalisation
  that \<open>split_file_by_delimiter\<close> starts with.
\<close>

fun as_list :: "delimiters \<Rightarrow> string list" where
  "as_list (Str s) = [s]"
| "as_list (Strs ds) = ds"

text \<open>Truthiness of the value together with \<open>len(...) > 0\<close>.\<close>

fun nonempty :: "delimiters \<Rightarrow> bool" where
  "nonempty (Strs ds) = (ds \<noteq> [] \<and> length ds > 0)"
| "nonempty (Str s) = (s \<noteq> [] \<and> length s > 0)"

text \<open>\<open>any(d in line for d in delimiters)\<close>; \<open>d in line\<close> is the substring test.\<close>

definition any_in :: "string list \<Rightarrow> line \<Rightarrow> bool" where
  "any_in ds line = list_ex (\<lambda>d. sublist d line) ds"

section \<open>The effects of a run\<close>

text \<open>
  A run is observed through the calls of \<open>write_part\<close> (each writes one file and prints
  one confirmation) and through the warnings it prints, in the order they happen.
\<close>

datatype event =
    WritePart nat "line list"
  | WarnEmpty
  | WarnNoDelimiters

fun chunks :: "event list \<Rightarrow> line list list" where
  "chunks [] = []"
| "chunks (WritePart n ls # es) = ls # chunks es"
| "chunks (e # es) = chunks es"

fun part_numbers :: "event list \<Rightarrow> nat list" where
  "part_numbers [] = []"
| "part_numbers (WritePart n ls # es) = n # part_numbers es"
| "part_numbers (e # es) = part_numbers es"

fun warnings :: "event list \<Rightarrow> event list" where
  "warnings [] = []"
| "warnings (WritePart n ls # es) = warnings es"
| "warnings (e # es) = e # warnings es"

text \<open>The decimal digits of a part number, as an f-string prints it.\<close>

fun digits :: "nat \<Rightarrow> string" where
  "digits n =
     (if n < 10 then [char_of (48 + n)]
      else digits (n div 10) @ [char_of (48 + n mod 10)])"

text \<open>
  \<open>write_part\<close> names the file \<open>f"{base}_part_{part_number}{ext}"\<close>, where
  \<open>base, ext = os.path.splitext(os.path.basename(original_filepath))\<close> are taken as
  given.
\<close>

definition output_filename :: "string \<Rightarrow> string \<Rightarrow> nat \<Rightarrow> string" where
  "output_filename base ext part_number = base @ ''_part_'' @ digits part_number @ ext"

text \<open>The word count of a chunk: the sum over its lines.\<close>

definition chunk_words :: "line list \<Rightarrow> int" where
  "chunk_words ls = sum_list (map line_words ls)"

text \<open>\<open>xs[start:end]\<close> for indices that are not negative.\<close>

definition slice :: "'a list \<Rightarrow> nat \<Rightarrow> nat \<Rightarrow> 'a list" where
  "slice xs start end_idx = take (end_idx - start) (drop start xs)"

text \<open>
  \<open>xs[start:end]\<close> for any two integers: a negative index counts from the end, and
  both are clamped to the list.
\<close>

definition slice_index :: "nat \<Rightarrow> int \<Rightarrow> nat" where
  "slice_index n i = (if i < 0 then nat (max 0 (int n + i)) else min n (nat i))"

definition py_slice :: "'a list \<Rightarrow> int \<Rightarrow> int \<Rightarrow> 'a list" where
  "py_slice xs start end_idx =
     slice xs (slice_index (length xs) start) (slice_index (length xs) end_idx)"

text \<open>
  Where a chunk starts in the input, when the chunks are laid end to end: the number of
  lines in the chunks before it.
\<close>

definition chunk_start :: "line list list \<Rightarrow> nat \<Rightarrow> nat" where
  "chunk_start cs k = length (concat (take k cs))"

text \<open>A blank line: nothing is left of it after \<open>strip\<close>.\<close>

definition is_blank :: "line \<Rightarrow> bool" where
  "is_blank line = (strip line = [])"

text \<open>\<open>p\<close> is the nearest position before \<open>i\<close> whose line is not blank.\<close>

definition prev_non_blank :: "line list \<Rightarrow> nat \<Rightarrow> nat \<Rightarrow> bool" where
  "prev_non_blank ls i p =
     (p < i \<and> \<not> is_blank (ls ! p) \<and> (\<forall>j\<in>set [Suc p ..< i]. is_blank (ls ! j)))"

section \<open>The delimiter-only splitter\<close>

text \<open>
  The backward walk over blank lines:
  \<open>while prev_idx >= 0 and all_lines[prev_idx].strip() == '': prev_idx -= 1\<close>.
  The result is \<open>-1\<close> when every line walked over is blank.
\<close>

function skip_blank_back :: "line list \<Rightarrow> int \<Rightarrow> int" where
  "skip_blank_back all_lines prev_idx =
     (if prev_idx \<ge> 0 \<and> strip (all_lines ! nat prev_idx) = []
      then skip_blank_back all_lines (prev_idx - 1)
      else prev_idx)"
  by pat_completeness auto
termination
  by (relation "measure (\<lambda>(all_lines, prev_idx). nat (prev_idx + 1))") auto

text \<open>Step 1: the indices of the lines that contain a delimiter.\<close>

definition delimiter_indices :: "string list \<Rightarrow> line list \<Rightarrow> nat list" where
  "delimiter_indices ds all_lines =
     filter (\<lambda>i. any_in ds (all_lines ! i)) [0 ..< length all_lines]"

text \<open>Step 2: the test each delimiter index goes through to become a split point.\<close>

definition real_split_point :: "string list \<Rightarrow> line list \<Rightarrow> nat \<Rightarrow> bool" where
  "real_split_point ds all_lines idx =
     (if idx = 0 then True
      else
        (let prev_idx = skip_blank_back all_lines (int idx - 1)
         in if prev_idx < 0 then True
            else \<not> any_in ds (all_lines ! nat prev_idx)))"

definition split_points :: "string list \<Rightarrow> line list \<Rightarrow> nat list" where
  "split_points ds all_lines =
     filter (real_split_point ds all_lines) (delimiter_indices ds all_lines)"

text \<open>
  Step 3, the loop over \<open>enumerate(split_points)\<close>: the section runs to the next split
  point, or to the end of the file for the last one; \<open>file_count\<close> is incremented
  before each write.
\<close>

fun write_sections :: "line list \<Rightarrow> nat list \<Rightarrow> nat \<Rightarrow> event list" where
  "write_sections all_lines [] file_count = []"
| "write_sections all_lines (start_idx # rest) file_count =
     (let end_idx = (case rest of [] \<Rightarrow> length all_lines | next_idx # _ \<Rightarrow> next_idx);
          section_lines = slice all_lines start_idx end_idx
      in if section_lines \<noteq> []
         then WritePart (file_count + 1) section_lines
                # write_sections all_lines rest (file_count + 1)
         else write_sections all_lines rest file_count)"

definition split_file_by_delimiter :: "line list \<Rightarrow> delimiters \<Rightarrow> event list" where
  "split_file_by_delimiter all_lines delimiters =
     (let ds = as_list delimiters
      in if all_lines = [] then [WarnEmpty]
         else if delimiter_indices ds all_lines = []
         then [WritePart 1 all_lines, WarnNoDelimiters]
         else
           (let sp = split_points ds all_lines
            in if sp \<noteq> [] then
                 (if hd sp > 0
                  then WritePart 0 (slice all_lines 0 (hd sp)) # write_sections all_lines sp 1
                  else write_sections all_lines sp 0)
               else if all_lines \<noteq> [] then [WritePart 1 all_lines]
               else write_sections all_lines sp 0))"

section \<open>The word-budget splitter\<close>

text \<open>\<open>use_delimiters = DELIMITER and len(DELIMITER) > 0\<close>.\<close>

definition use_delimiters :: "delimiters \<Rightarrow> bool" where
  "use_delimiters D = nonempty D"

definition line_contains_delimiter :: "delimiters \<Rightarrow> line \<Rightarrow> bool" where
  "line_contains_delimiter D line =
     (if \<not> use_delimiters D then False else any_in (iterate D) line)"

definition find_prev_non_empty_line_is_delimiter :: "delimiters \<Rightarrow> line list \<Rightarrow> nat \<Rightarrow> bool" where
  "find_prev_non_empty_line_is_delimiter D all_lines idx =
     (let prev_idx = skip_blank_back all_lines (int idx - 1)
      in if prev_idx < 0 then False
         else line_contains_delimiter D (all_lines ! nat prev_idx))"

definition is_split_point :: "delimiters \<Rightarrow> line list \<Rightarrow> nat \<Rightarrow> bool" where
  "is_split_point D all_lines i =
     (if use_delimiters D \<and> line_contains_delimiter D (all_lines ! i) \<and> i > 0
      then \<not> find_prev_non_empty_line_is_delimiter D all_lines i
      else False)"

text \<open>
  The \<open>while i < len(all_lines)\<close> loop. The first branch is the flush at a split point,
  which leaves \<open>i\<close> as it is (\<open>continue\<close>); the second is the flush of the fallback
  without delimiters, after which the line is appended to the emptied chunk.
\<close>

function words_loop ::
  "delimiters \<Rightarrow> line list \<Rightarrow> int \<Rightarrow> nat \<Rightarrow> line list \<Rightarrow> int \<Rightarrow> nat \<Rightarrow> event list" where
  "words_loop D all_lines words_per_file i current_chunk current_words file_count =
     (if i < length all_lines then
        (if current_words \<ge> words_per_file \<and> is_split_point D all_lines i \<and> current_chunk \<noteq> []
         then WritePart file_count current_chunk
                # words_loop D all_lines words_per_file i [] 0 (file_count + 1)
         else if \<not> use_delimiters D
                 \<and> current_words + line_words (all_lines ! i) > words_per_file
                 \<and> current_chunk \<noteq> []
         then WritePart file_count current_chunk
                # words_loop D all_lines words_per_file (i + 1) ([] @ [all_lines ! i])
                    (0 + line_words (all_lines ! i)) (file_count + 1)
         else words_loop D all_lines words_per_file (i + 1) (current_chunk @ [all_lines ! i])
                (current_words + line_words (all_lines ! i)) file_count)
      else (if current_chunk \<noteq> [] then [WritePart file_count current_chunk] else []))"
  by pat_completeness auto
termination
  by (relation "measure (\<lambda>(D, all_lines, w, i, chunk, cw, fc).
          2 * (length all_lines - i) + (if chunk \<noteq> [] then 1 else 0))") auto

definition split_file_by_words :: "delimiters \<Rightarrow> line list \<Rightarrow> int \<Rightarrow> event list" where
  "split_file_by_words D all_lines words_per_file =
     (if all_lines = [] then [] else words_loop D all_lines words_per_file 0 [] 0 1)"


section \<open>The splitters without delimiters\<close>

text \<open>
  \<open>split_file_by_words\<close> of the simplified script: the same greedy loop as the fallback
  above, over the lines of the file as they are read.
\<close>

fun words_loop_simple :: "int \<Rightarrow> line list \<Rightarrow> line list \<Rightarrow> int \<Rightarrow> nat \<Rightarrow> event list" where
  "words_loop_simple words_per_file [] current_chunk current_words file_count =
     (if current_chunk \<noteq> [] then [WritePart file_count current_chunk] else [])"
| "words_loop_simple words_per_file (line # rest) current_chunk current_words file_count =
     (if current_words + line_words line > words_per_file \<and> current_chunk \<noteq> []
      then WritePart file_count current_chunk
             # words_loop_simple words_per_file rest ([] @ [line]) (0 + line_words line)
                 (file_count + 1)
      else words_loop_simple words_per_file rest (current_chunk @ [line])
             (current_words + line_words line) file_count)"

definition split_file_by_words_simple :: "line list \<Rightarrow> int \<Rightarrow> event list" where
  "split_file_by_words_simple f words_per_file = words_loop_simple words_per_file f [] 0 1"

text \<open>\<open>split_file_by_lines\<close>, the same in both scripts: the line is appended first.\<close>

fun lines_loop :: "int \<Rightarrow> line list \<Rightarrow> line list \<Rightarrow> nat \<Rightarrow> event list" where
  "lines_loop lines_per_file [] lines file_count =
     (if lines \<noteq> [] then [WritePart file_count lines] else [])"
| "lines_loop lines_per_file (line # rest) lines file_count =
     (if int (length (lines @ [line])) \<ge> lines_per_file
      then WritePart file_count (lines @ [line])
             # lines_loop lines_per_file rest [] (file_count + 1)
      else lines_loop lines_per_file rest (lines @ [line]) file_count)"

definition split_file_by_lines :: "line list \<Rightarrow> int \<Rightarrow> event list" where
  "split_file_by_lines f lines_per_file = lines_loop lines_per_file f [] 1"

text \<open>
  \<open>len(line.encode('utf-8'))\<close>: a code point below 128 is one byte, the others below
  256 are two.
\<close>

definition utf8_len :: "char \<Rightarrow> nat" where
  "utf8_len c = (if (of_char c :: nat) < 128 then 1 else 2)"

definition line_bytes :: "line \<Rightarrow> int" where
  "line_bytes line = int (sum_list (map utf8_len line))"

text \<open>\<open>split_file_by_bytes\<close>, the same in both scripts.\<close>

fun bytes_loop :: "int \<Rightarrow> line list \<Rightarrow> line list \<Rightarrow> int \<Rightarrow> nat \<Rightarrow> event list" where
  "bytes_loop bytes_per_file [] lines current_bytes file_count =
     (if lines \<noteq> [] then [WritePart file_count lines] else [])"
| "bytes_loop bytes_per_file (line # rest) lines current_bytes file_count =
     (if current_bytes + line_bytes line > bytes_per_file \<and> lines \<noteq> []
      then WritePart file_count lines
             # bytes_loop bytes_per_file rest ([] @ [line]) (0 + line_bytes line)
                 (file_count + 1)
      else bytes_loop bytes_per_file rest (lines @ [line])
             (current_bytes + line_bytes line) file_count)"

definition split_file_by_bytes :: "line list \<Rightarrow> int \<Rightarrow> event list" where
  "split_file_by_bytes f bytes_per_file = bytes_loop bytes_per_file f [] 0 1"

text \<open>
  \<open>split_file_into_parts\<close>, the same in both scripts. The ceiling division raises
  \<open>ZeroDivisionError\<close> for zero parts; \<open>//\<close> rounds down, as \<open>div\<close> does;
  \<open>range(num_parts)\<close> is empty for a negative number.
\<close>

datatype error = ZeroDivisionError

fun parts_loop :: "line list \<Rightarrow> int \<Rightarrow> nat list \<Rightarrow> event list" where
  "parts_loop lines lines_per_part [] = []"
| "parts_loop lines lines_per_part (i # is) =
     (let start = int i * lines_per_part;
          end_idx = start + lines_per_part;
          part_lines = py_slice lines start end_idx
      in if part_lines \<noteq> []
         then WritePart (i + 1) part_lines # parts_loop lines lines_per_part is
         else parts_loop lines lines_per_part is)"

definition split_file_into_parts :: "line list \<Rightarrow> int \<Rightarrow> error + event list" where
  "split_file_into_parts lines num_parts =
     (if num_parts = 0 then Inl ZeroDivisionError
      else
        (let total_lines = int (length lines);
             lines_per_part = (total_lines + num_parts - 1) div num_parts
         in Inr (parts_loop lines lines_per_part [0 ..< nat num_parts])))"

text \<open>The events of a run that may have stopped with an error before any of them.\<close>

fun events_of :: "error + event list \<Rightarrow> event list" where
  "events_of (Inl e) = []"
| "events_of (Inr es) = es"

section \<open>Predicates on the chunks of a run\<close>

text \<open>
  \<open>chunks_at P s cs\<close>: every chunk of \<open>cs\<close> satisfies \<open>P\<close> together with its start,
  the first chunk starting at \<open>s\<close> and each next one where the one before ends.
\<close>

fun chunks_at :: "(nat \<Rightarrow> line list \<Rightarrow> bool) \<Rightarrow> nat \<Rightarrow> line list list \<Rightarrow> bool" where
  "chunks_at P s [] = True"
| "chunks_at P s (c # cs) = (P s c \<and> chunks_at P (s + length c) cs)"

text \<open>
  What the word-budget loop guarantees of a chunk \<open>c\<close> that starts at line \<open>s\<close> when
  delimiters are in use: it is the non-empty run of lines from \<open>s\<close>; it starts at line
  0 or at a split point; at every split point inside it the words gathered so far were
  fewer than the budget; and unless it ends the file, it holds at least the budget and
  the line after it is a split point.
\<close>

definition budget_chunk :: "delimiters \<Rightarrow> line list \<Rightarrow> int \<Rightarrow> nat \<Rightarrow> line list \<Rightarrow> bool" where
  "budget_chunk D ls W s c =
     (c \<noteq> [] \<and> c = slice ls s (s + length c) \<and> s + length c \<le> length ls
      \<and> (s = 0 \<or> is_split_point D ls s)
      \<and> (\<forall>b\<in>{s<..<s + length c}. is_split_point D ls b \<longrightarrow> chunk_words (slice ls s b) < W)
      \<and> (s + length c < length ls
            \<longrightarrow> W \<le> chunk_words c \<and> is_split_point D ls (s + length c)))"

text \<open>
  What the greedy loop without delimiters guarantees of its chunks: each is non-empty;
  every line appended to a non-empty chunk kept it within the budget; and the first
  line of the next chunk would have taken it over the budget.
\<close>

fun greedy_chunks :: "int \<Rightarrow> line list list \<Rightarrow> bool" where
  "greedy_chunks W [] = True"
| "greedy_chunks W (c # cs) =
     (c \<noteq> []
      \<and> (\<forall>n\<in>{0<..<length c}. chunk_words (take n c) + line_words (c ! n) \<le> W)
      \<and> (case cs of [] \<Rightarrow> True | d # _ \<Rightarrow> d \<noteq> [] \<and> chunk_words c + line_words (hd d) > W)
      \<and> greedy_chunks W cs)"

section \<open>Blank lines and the backward walk\<close>

declare skip_blank_back.simps [simp del]
declare words_loop.simps [simp del]

lemma strip_empty_iff: "strip s = [] \<longleftrightarrow> (\<forall>c\<in>set s. isspace c)"
proof -
  have "(\<forall>c\<in>set (dropWhile isspace s). isspace c) \<longleftrightarrow> (\<forall>c\<in>set s. isspace c)"
  proof
    assume a: "\<forall>c\<in>set (dropWhile isspace s). isspace c"
    have "set s = set (takeWhile isspace s) \<union> set (dropWhile isspace s)"
      by (metis set_append takeWhile_dropWhile_id)
    with a show "\<forall>c\<in>set s. isspace c"
      by (auto dest: set_takeWhileD)
  next
    assume "\<forall>c\<in>set s. isspace c"
    then show "\<forall>c\<in>set (dropWhile isspace s). isspace c"
      by (auto dest: set_dropWhileD)
  qed
  then show ?thesis
    by (simp add: strip_def)
qed

lemma is_blank_iff: "is_blank l \<longleftrightarrow> (\<forall>c\<in>set l. isspace c)"
  by (simp add: is_blank_def strip_empty_iff)

lemma prev_non_blank_iff:
  "prev_non_blank ls i p \<longleftrightarrow>
     p < i \<and> \<not> is_blank (ls ! p) \<and> (\<forall>j. p < j \<and> j < i \<longrightarrow> is_blank (ls ! j))"
  by (auto simp: prev_non_blank_def)

lemma skip_blank_back_Suc:
  "skip_blank_back ls (int (Suc p) - 1) =
     (if is_blank (ls ! p) then skip_blank_back ls (int p - 1) else int p)"
  by (subst skip_blank_back.simps) (simp add: is_blank_def)

lemma skip_blank_back_0: "skip_blank_back ls (int 0 - 1) = - 1"
  by (subst skip_blank_back.simps) simp

lemma skip_blank_back_cases:
  "(skip_blank_back ls (int i - 1) = - 1 \<and> (\<forall>j<i. is_blank (ls ! j)))
   \<or> (\<exists>p. skip_blank_back ls (int i - 1) = int p \<and> prev_non_blank ls i p)"
proof (induction i)
  case 0
  show ?case using skip_blank_back_0 by simp
next
  case (Suc i)
  show ?case
  proof (cases "is_blank (ls ! i)")
    case False
    then have "skip_blank_back ls (int (Suc i) - 1) = int i"
      by (simp only: skip_blank_back_Suc if_False)
    moreover have "prev_non_blank ls (Suc i) i"
      using False by (auto simp: prev_non_blank_iff)
    ultimately show ?thesis by blast
  next
    case True
    then have eq: "skip_blank_back ls (int (Suc i) - 1) = skip_blank_back ls (int i - 1)"
      by (simp only: skip_blank_back_Suc if_True)
    from Suc show ?thesis
    proof
      assume "skip_blank_back ls (int i - 1) = - 1 \<and> (\<forall>j<i. is_blank (ls ! j))"
      with True eq show ?thesis by (auto simp: less_Suc_eq)
    next
      assume "\<exists>p. skip_blank_back ls (int i - 1) = int p \<and> prev_non_blank ls i p"
      then obtain p where p: "skip_blank_back ls (int i - 1) = int p" "prev_non_blank ls i p"
        by blast
      from p(2) True have "prev_non_blank ls (Suc i) p"
        by (auto simp: prev_non_blank_iff less_Suc_eq)
      with p(1) eq show ?thesis by auto
    qed
  qed
qed

lemma prev_non_blank_unique:
  "prev_non_blank ls i p \<Longrightarrow> prev_non_blank ls i q \<Longrightarrow> p = q"
  unfolding prev_non_blank_iff by (metis linorder_neqE_nat)

lemma prev_non_blank_not_all_blank:
  "prev_non_blank ls i p \<Longrightarrow> \<not> (\<forall>j<i. is_blank (ls ! j))"
  unfolding prev_non_blank_iff by blast

text \<open>
  What the walk decides, for both splitters: \<open>found\<close> is the answer when a non-blank
  line is met, \<open>none\<close> the answer when there is none.
\<close>

lemma skip_blank_back_decides:
  "(let prev_idx = skip_blank_back ls (int i - 1)
    in if prev_idx < 0 then none else found (ls ! nat prev_idx))
   = (if \<forall>j<i. is_blank (ls ! j) then none
      else (\<exists>p. prev_non_blank ls i p \<and> found (ls ! p)))"
proof -
  from skip_blank_back_cases [of ls i] show ?thesis
  proof
    assume "skip_blank_back ls (int i - 1) = - 1 \<and> (\<forall>j<i. is_blank (ls ! j))"
    then show ?thesis by (simp add: Let_def)
  next
    assume "\<exists>p. skip_blank_back ls (int i - 1) = int p \<and> prev_non_blank ls i p"
    then obtain p where p: "skip_blank_back ls (int i - 1) = int p" "prev_non_blank ls i p"
      by blast
    have "(\<exists>q. prev_non_blank ls i q \<and> found (ls ! q)) \<longleftrightarrow> found (ls ! p)"
      using p(2) prev_non_blank_unique [of ls i p] by blast
    then show ?thesis
      using p prev_non_blank_not_all_blank [OF p(2)] by (auto simp: Let_def)
  qed
qed

lemma real_split_point_iff:
  "real_split_point ds ls i \<longleftrightarrow>
     (i = 0 \<or> (\<forall>j<i. is_blank (ls ! j)) \<or> (\<exists>p. prev_non_blank ls i p \<and> \<not> any_in ds (ls ! p)))"
  unfolding real_split_point_def
  using skip_blank_back_decides [of ls i True "\<lambda>l. \<not> any_in ds l"]
  by auto

lemma set_split_points:
  "set (split_points ds ls) =
     {i. i < length ls \<and> any_in ds (ls ! i) \<and> real_split_point ds ls i}"
  by (auto simp: split_points_def delimiter_indices_def)

lemma sorted_split_points: "sorted_wrt (<) (split_points ds ls)"
  unfolding split_points_def delimiter_indices_def
  by (intro sorted_wrt_filter) (simp add: sorted_wrt_upt)

lemma split_points_less: "i \<in> set (split_points ds ls) \<Longrightarrow> i < length ls"
  by (simp add: set_split_points)

text \<open>
  After a non-blank delimiter line, as long as every non-blank line contains a
  delimiter, no position is a split point.
\<close>

lemma run_not_split_point:
  assumes "\<not> is_blank (ls ! a)" "any_in ds (ls ! a)" "a < j"
    and run: "\<forall>m. a < m \<and> m < j \<and> \<not> is_blank (ls ! m) \<longrightarrow> any_in ds (ls ! m)"
  shows "\<not> real_split_point ds ls j"
proof -
  have nb: "\<not> (\<forall>m<j. is_blank (ls ! m))" using assms(1,3) by blast
  from skip_blank_back_cases [of ls j] nb obtain p where p: "prev_non_blank ls j p"
    by blast
  have "a \<le> p"
    using p assms(1,3) unfolding prev_non_blank_iff by (meson not_le_imp_less)
  then have "any_in ds (ls ! p)"
    using p assms(2) run unfolding prev_non_blank_iff by (cases "a = p") auto
  then have "\<not> (\<exists>q. prev_non_blank ls j q \<and> \<not> any_in ds (ls ! q))"
    using p prev_non_blank_unique [of ls j p] by blast
  with nb assms(3) show ?thesis
    by (simp add: real_split_point_iff)
qed


section \<open>The boundary classifier\<close>

text \<open>
  Claim C2, as amended. A position is among the split points of the delimiter-only
  splitter if and only if its line contains a delimiter and the position is 0, or every
  line before it is blank, or the nearest non-blank line before it contains no
  delimiter. Consequently, in a run \<open>a..b\<close> that starts a section with a non-blank
  delimiter line and whose non-blank lines all contain a delimiter, the first line is
  the only split point. The run has to start with a non-blank line: a delimiter line
  that is itself blank is walked over, and does not close the run for the next one.
\<close>

theorem split_point_classification:
  "(i \<in> set (split_points ds ls) \<longleftrightarrow>
      i < length ls \<and> any_in ds (ls ! i) \<and>
      (i = 0 \<or> (\<forall>j\<in>{..<i}. is_blank (ls ! j))
        \<or> (\<exists>p. prev_non_blank ls i p \<and> \<not> any_in ds (ls ! p))))
   \<and> (a \<le> b \<and> b < length ls \<and> any_in ds (ls ! a) \<and> \<not> is_blank (ls ! a)
        \<and> (a = 0 \<or> (\<forall>j\<in>{..<a}. is_blank (ls ! j))
              \<or> (\<exists>p. prev_non_blank ls a p \<and> \<not> any_in ds (ls ! p)))
        \<and> (\<forall>j\<in>{a<..b}. \<not> is_blank (ls ! j) \<longrightarrow> any_in ds (ls ! j))
      \<longrightarrow> {j \<in> set (split_points ds ls). a \<le> j \<and> j \<le> b} = {a})"
proof (intro conjI impI)
  show "i \<in> set (split_points ds ls) \<longleftrightarrow>
      i < length ls \<and> any_in ds (ls ! i) \<and>
      (i = 0 \<or> (\<forall>j\<in>{..<i}. is_blank (ls ! j))
        \<or> (\<exists>p. prev_non_blank ls i p \<and> \<not> any_in ds (ls ! p)))"
    by (auto simp: set_split_points real_split_point_iff)
next
  assume h: "a \<le> b \<and> b < length ls \<and> any_in ds (ls ! a) \<and> \<not> is_blank (ls ! a)
        \<and> (a = 0 \<or> (\<forall>j\<in>{..<a}. is_blank (ls ! j))
              \<or> (\<exists>p. prev_non_blank ls a p \<and> \<not> any_in ds (ls ! p)))
        \<and> (\<forall>j\<in>{a<..b}. \<not> is_blank (ls ! j) \<longrightarrow> any_in ds (ls ! j))"
  then have "real_split_point ds ls a"
    by (auto simp: real_split_point_iff)
  with h have first: "a \<in> set (split_points ds ls)"
    by (simp add: set_split_points)
  have "j \<notin> set (split_points ds ls)" if "a < j" "j \<le> b" for j
  proof -
    have "\<forall>m. a < m \<and> m < j \<and> \<not> is_blank (ls ! m) \<longrightarrow> any_in ds (ls ! m)"
      using h that by auto
    with h that(1) have "\<not> real_split_point ds ls j"
      by (intro run_not_split_point [of ls a ds j]) auto
    then show ?thesis by (simp add: set_split_points)
  qed
  with first h show "{j \<in> set (split_points ds ls). a \<le> j \<and> j \<le> b} = {a}"
    by (auto simp: le_less)
qed

theorem split_point_classification_witness:
  "4 \<in> set (split_points [''-- Chat:'']
        [''-- Chat: A\<newline>'', ''\<newline>'', ''-- Chat: B\<newline>'', ''world\<newline>'', ''-- Chat: C\<newline>''])
   \<and> {j \<in> set (split_points [''-- Chat:'']
        [''-- Chat: A\<newline>'', ''\<newline>'', ''-- Chat: B\<newline>'', ''world\<newline>'', ''-- Chat: C\<newline>'']).
         0 \<le> j \<and> j \<le> 2} = {0}"
proof -
  let ?ds = "[''-- Chat:'']"
  let ?ls = "[''-- Chat: A\<newline>'', ''\<newline>'', ''-- Chat: B\<newline>'', ''world\<newline>'', ''-- Chat: C\<newline>'']"
  have p: "prev_non_blank ?ls 4 3 \<and> \<not> any_in ?ds (?ls ! 3)"
    by code_simp
  have h1: "4 < length ?ls \<and> any_in ?ds (?ls ! 4)"
    by code_simp
  have h2: "(0::nat) \<le> 2 \<and> 2 < length ?ls \<and> any_in ?ds (?ls ! 0) \<and> \<not> is_blank (?ls ! 0)
      \<and> (\<forall>j\<in>{0<..2}. \<not> is_blank (?ls ! j) \<longrightarrow> any_in ?ds (?ls ! j))"
    by code_simp
  from p h1 h2 split_point_classification [of 4 ?ds ?ls 0 2]
  show ?thesis by blast
qed

text \<open>
  With the delimiter \<open>" "\<close>, the two adjacent delimiter lines \<open>" \\n"\<close> are blank,
  and both are split points.
\<close>

theorem blank_delimiter_run_counterexample:
  "any_in ['' ''] '' \<newline>'' \<and> is_blank '' \<newline>''
   \<and> split_points ['' ''] [''x\<newline>'', '' \<newline>'', '' \<newline>''] = [1, 2]"
  by code_simp

section \<open>The chunks of a run, laid end to end\<close>

lemma concat_write_sections:
  "sorted_wrt (<) (s # rest) \<Longrightarrow> \<forall>i\<in>set (s # rest). i < length ls \<Longrightarrow>
   concat (chunks (write_sections ls (s # rest) fc)) = drop s ls"
proof (induction rest arbitrary: s fc)
  case Nil
  then show ?case by (simp add: slice_def)
next
  case (Cons e r)
  have se: "s < e" "s < length ls" "e < length ls" using Cons.prems by auto
  have ih: "concat (chunks (write_sections ls (e # r) (fc + 1))) = drop e ls"
    using Cons.prems by (intro Cons.IH) auto
  have ne: "slice ls s e \<noteq> []" using se by (simp add: slice_def)
  have "slice ls s e @ drop (e - s) (drop s ls) = drop s ls"
    unfolding slice_def by (rule append_take_drop_id)
  moreover have "drop (e - s) (drop s ls) = drop e ls" using se by simp
  ultimately have "slice ls s e @ drop e ls = drop s ls" by simp
  with ne ih show ?case
    by (simp del: write_sections.simps add: write_sections.simps(2) [of ls s "e # r" fc] Let_def)
qed

lemma concat_split_file_by_delimiter:
  "concat (chunks (split_file_by_delimiter all_lines delimiters)) = all_lines"
proof -
  define sp where "sp = split_points (as_list delimiters) all_lines"
  show ?thesis
  proof (cases "sp")
    case Nil
    then show ?thesis
      unfolding split_file_by_delimiter_def Let_def sp_def [symmetric]
      by simp
  next
    case (Cons s rest)
    have "sorted_wrt (<) (s # rest)" "\<forall>i\<in>set (s # rest). i < length all_lines"
      using sorted_split_points [of "as_list delimiters" all_lines]
        split_points_less [of _ "as_list delimiters" all_lines]
      unfolding sp_def [symmetric] Cons by auto
    then have c: "\<And>fc. concat (chunks (write_sections all_lines (s # rest) fc)) = drop s all_lines"
      by (rule concat_write_sections)
    show ?thesis
    proof (cases "s = 0")
      case True
      then show ?thesis
        unfolding split_file_by_delimiter_def Let_def sp_def [symmetric] Cons
        using c [of 0] by (simp del: write_sections.simps)
    next
      case False
      then show ?thesis
        unfolding split_file_by_delimiter_def Let_def sp_def [symmetric] Cons
        by (simp del: write_sections.simps add: c slice_def)
    qed
  qed
qed

lemma concat_words_loop:
  "i \<le> length ls \<Longrightarrow>
   concat (chunks (words_loop D ls W i chunk cw fc)) = chunk @ drop i ls"
proof (induction D ls W i chunk cw fc rule: words_loop.induct)
  case (1 D ls W i chunk cw fc)
  show ?case
  proof (cases "i < length ls")
    case False
    with "1.prems" show ?thesis
      by (subst words_loop.simps) simp
  next
    case True
    then have d: "drop i ls = ls ! i # drop (Suc i) ls"
      by (simp add: Cons_nth_drop_Suc)
    from True "1.IH" show ?thesis
      by (subst words_loop.simps) (auto simp: d)
  qed
qed

lemma concat_split_file_by_words:
  "concat (chunks (split_file_by_words D all_lines W)) = all_lines"
  by (simp add: split_file_by_words_def concat_words_loop)

text \<open>
  Claim C1. For every line sequence, every delimiter configuration and every word
  budget, the chunks written by the delimiter-only splitter, and those written by the
  word-budget splitter, concatenated in the order they are written, are the input: no
  line is lost, repeated or moved.
\<close>

theorem chunks_reconstruct_input:
  "concat (chunks (split_file_by_delimiter all_lines delimiters)) = all_lines
   \<and> concat (chunks (split_file_by_words D all_lines words_per_file)) = all_lines"
  by (simp add: concat_split_file_by_delimiter concat_split_file_by_words)

section \<open>Empty input\<close>

text \<open>
  Claim C9. On an input of zero lines the delimiter-only splitter prints its warning and
  writes nothing, and the word-budget splitter does nothing at all; neither has an
  error among its results.
\<close>

theorem empty_input_writes_nothing:
  "split_file_by_delimiter [] delimiters = [WarnEmpty]
   \<and> chunks (split_file_by_delimiter [] delimiters) = []
   \<and> split_file_by_words D [] words_per_file = []
   \<and> chunks (split_file_by_words D [] words_per_file) = []"
  by (simp add: split_file_by_delimiter_def split_file_by_words_def)

section \<open>No empty chunk is written\<close>

lemma write_sections_nonempty: "[] \<notin> set (chunks (write_sections ls sp fc))"
  by (induction sp arbitrary: fc) (auto simp: Let_def)

lemma split_file_by_delimiter_nonempty:
  "[] \<notin> set (chunks (split_file_by_delimiter all_lines delimiters))"
  unfolding split_file_by_delimiter_def Let_def
  by (auto simp: write_sections_nonempty slice_def)

lemma words_loop_nonempty: "[] \<notin> set (chunks (words_loop D ls W i chunk cw fc))"
proof (induction D ls W i chunk cw fc rule: words_loop.induct)
  case (1 D ls W i chunk cw fc)
  then show ?case
    by (subst words_loop.simps) auto
qed

lemma split_file_by_words_nonempty:
  "[] \<notin> set (chunks (split_file_by_words D all_lines W))"
  by (simp add: split_file_by_words_def words_loop_nonempty)

lemma words_loop_simple_nonempty: "[] \<notin> set (chunks (words_loop_simple W f chunk cw fc))"
  by (induction f arbitrary: chunk cw fc) auto

lemma lines_loop_nonempty: "[] \<notin> set (chunks (lines_loop n f lines fc))"
  by (induction f arbitrary: lines fc) auto

lemma bytes_loop_nonempty: "[] \<notin> set (chunks (bytes_loop n f lines cb fc))"
  by (induction f arbitrary: lines cb fc) auto

lemma parts_loop_nonempty: "[] \<notin> set (chunks (parts_loop lines n is))"
  by (induction "is") (auto simp: Let_def)

lemma split_file_into_parts_nonempty:
  "[] \<notin> set (chunks (events_of (split_file_into_parts lines num_parts)))"
  by (simp add: split_file_into_parts_def Let_def parts_loop_nonempty)

text \<open>
  Claim C10. No splitter hands an empty list of lines to \<open>write_part\<close>: not the
  delimiter-only one, not the word-budget one with or without delimiters, in either
  script, nor the splitters by lines, by bytes and into parts.
\<close>

theorem no_empty_chunk_written:
  "[] \<notin> set (chunks (split_file_by_delimiter all_lines delimiters))
   \<and> [] \<notin> set (chunks (split_file_by_words D all_lines words_per_file))
   \<and> [] \<notin> set (chunks (split_file_by_words_simple all_lines words_per_file))
   \<and> [] \<notin> set (chunks (split_file_by_lines all_lines lines_per_file))
   \<and> [] \<notin> set (chunks (split_file_by_bytes all_lines bytes_per_file))
   \<and> [] \<notin> set (chunks (events_of (split_file_into_parts all_lines num_parts)))"
  by (simp add: split_file_by_delimiter_nonempty split_file_by_words_nonempty
      split_file_by_words_simple_def words_loop_simple_nonempty
      split_file_by_lines_def lines_loop_nonempty
      split_file_by_bytes_def bytes_loop_nonempty
      split_file_into_parts_nonempty)

section \<open>No line contains a delimiter\<close>

lemma delimiter_indices_empty_iff:
  "delimiter_indices ds ls = [] \<longleftrightarrow> (\<forall>l\<in>set ls. \<not> any_in ds l)"
  by (auto simp: delimiter_indices_def filter_empty_conv all_set_conv_all_nth)

lemma is_split_point_contains:
  "is_split_point D ls i \<Longrightarrow> line_contains_delimiter D (ls ! i)"
  by (simp add: is_split_point_def split: if_splits)

text \<open>
  With delimiters in use, as long as no line ahead is a split point the loop only
  appends, and writes everything in one part at the end.
\<close>

lemma words_loop_no_split_point:
  "use_delimiters D \<Longrightarrow> i \<le> length ls \<Longrightarrow>
   \<forall>j. i \<le> j \<and> j < length ls \<longrightarrow> \<not> is_split_point D ls j \<Longrightarrow>
   words_loop D ls W i chunk cw fc =
     (if chunk @ drop i ls \<noteq> [] then [WritePart fc (chunk @ drop i ls)] else [])"
proof (induction D ls W i chunk cw fc rule: words_loop.induct)
  case (1 D ls W i chunk cw fc)
  show ?case
  proof (cases "i < length ls")
    case False
    with "1.prems" show ?thesis
      by (subst words_loop.simps) simp
  next
    case True
    then have d: "drop i ls = ls ! i # drop (Suc i) ls"
      by (simp add: Cons_nth_drop_Suc)
    have nsp: "\<not> is_split_point D ls i" using True "1.prems" by simp
    have "words_loop D ls W (i + 1) (chunk @ [ls ! i]) (cw + line_words (ls ! i)) fc =
      (if (chunk @ [ls ! i]) @ drop (i + 1) ls \<noteq> []
       then [WritePart fc ((chunk @ [ls ! i]) @ drop (i + 1) ls)] else [])"
      using True nsp "1.prems" by (intro "1.IH"(3)) auto
    then show ?thesis
      using True nsp "1.prems"(1) by (subst words_loop.simps) (simp add: d)
  qed
qed

text \<open>
  Claim C8. On a non-empty input none of whose lines contains a delimiter, the
  delimiter-only splitter writes the whole input as part 1 and prints a warning, and
  returns normally; the word-budget splitter with delimiters in use, none of them in any
  line, writes the whole input as its single part, whatever the budget.
\<close>

theorem no_delimiter_found_single_chunk:
  "(all_lines \<noteq> [] \<and> (\<forall>l\<in>set all_lines. \<not> any_in (as_list delimiters) l)
      \<longrightarrow> split_file_by_delimiter all_lines delimiters
            = [WritePart 1 all_lines, WarnNoDelimiters])
   \<and> (all_lines \<noteq> [] \<and> use_delimiters D
        \<and> (\<forall>l\<in>set all_lines. \<not> line_contains_delimiter D l)
      \<longrightarrow> split_file_by_words D all_lines words_per_file = [WritePart 1 all_lines])"
proof (intro conjI impI)
  assume "all_lines \<noteq> [] \<and> (\<forall>l\<in>set all_lines. \<not> any_in (as_list delimiters) l)"
  then show "split_file_by_delimiter all_lines delimiters
            = [WritePart 1 all_lines, WarnNoDelimiters]"
    by (simp add: split_file_by_delimiter_def delimiter_indices_empty_iff)
next
  assume h: "all_lines \<noteq> [] \<and> use_delimiters D
        \<and> (\<forall>l\<in>set all_lines. \<not> line_contains_delimiter D l)"
  then have "\<forall>j. 0 \<le> j \<and> j < length all_lines \<longrightarrow> \<not> is_split_point D all_lines j"
    using is_split_point_contains [of D all_lines] by (metis nth_mem)
  with h have "words_loop D all_lines words_per_file 0 [] 0 1 =
     (if [] @ drop 0 all_lines \<noteq> [] then [WritePart 1 ([] @ drop 0 all_lines)] else [])"
    by (intro words_loop_no_split_point) auto
  with h show "split_file_by_words D all_lines words_per_file = [WritePart 1 all_lines]"
    by (simp add: split_file_by_words_def)
qed

theorem no_delimiter_found_single_chunk_witness:
  "split_file_by_delimiter [''hello\<newline>'', ''world\<newline>''] (Strs [''-- Chat:''])
     = [WritePart 1 [''hello\<newline>'', ''world\<newline>''], WarnNoDelimiters]
   \<and> split_file_by_words (Strs [''-- Chat:'']) [''hello\<newline>'', ''world\<newline>''] 1
     = [WritePart 1 [''hello\<newline>'', ''world\<newline>'']]"
proof -
  let ?ls = "[''hello\<newline>'', ''world\<newline>'']"
  let ?D = "Strs [''-- Chat:'']"
  have h1: "?ls \<noteq> [] \<and> (\<forall>l\<in>set ?ls. \<not> any_in (as_list ?D) l)"
    by code_simp
  have h2: "?ls \<noteq> [] \<and> use_delimiters ?D \<and> (\<forall>l\<in>set ?ls. \<not> line_contains_delimiter ?D l)"
    by code_simp
  from h1 h2 no_delimiter_found_single_chunk [of ?ls ?D ?D 1]
  show ?thesis by blast
qed

section \<open>Slices, word counts and chunk starts\<close>

lemma length_slice: "e \<le> length xs \<Longrightarrow> length (slice xs s e) = e - s"
  by (simp add: slice_def)

lemma slice_same: "slice xs s s = []"
  by (simp add: slice_def)

lemma slice_Suc: "s \<le> i \<Longrightarrow> i < length xs \<Longrightarrow> slice xs s (Suc i) = slice xs s i @ [xs ! i]"
proof -
  assume a: "s \<le> i" "i < length xs"
  then have "Suc i - s = Suc (i - s)" "i - s < length (drop s xs)" by auto
  then have "take (Suc i - s) (drop s xs) = take (i - s) (drop s xs) @ [drop s xs ! (i - s)]"
    by (simp add: take_Suc_conv_app_nth)
  with a show ?thesis by (simp add: slice_def)
qed

lemma take_slice: "b \<le> e \<Longrightarrow> take (b - s) (slice xs s e) = slice xs s b"
  by (simp add: slice_def min_def)

lemma chunk_words_Nil: "chunk_words [] = 0"
  by (simp add: chunk_words_def)

lemma chunk_words_append: "chunk_words (xs @ ys) = chunk_words xs + chunk_words ys"
  by (simp add: chunk_words_def)

lemma chunk_words_single: "chunk_words [l] = line_words l"
  by (simp add: chunk_words_def)

lemma chunk_start_0: "chunk_start cs 0 = 0"
  by (simp add: chunk_start_def)

lemma chunk_start_Cons_Suc: "chunk_start (c # cs) (Suc k) = length c + chunk_start cs k"
  by (simp add: chunk_start_def)

lemma chunk_start_Suc:
  "k < length cs \<Longrightarrow> chunk_start cs (Suc k) = chunk_start cs k + length (cs ! k)"
  by (simp add: chunk_start_def take_Suc_conv_app_nth)

lemma chunks_at_nth:
  "chunks_at P s cs \<Longrightarrow> k < length cs \<Longrightarrow> P (s + chunk_start cs k) (cs ! k)"
proof (induction cs arbitrary: s k)
  case Nil
  then show ?case by simp
next
  case (Cons c cs)
  show ?case
  proof (cases k)
    case 0
    with Cons.prems show ?thesis by (simp add: chunk_start_0)
  next
    case (Suc m)
    with Cons.prems have "P (s + length c + chunk_start cs m) (cs ! m)"
      by (intro Cons.IH) auto
    with Suc show ?thesis by (simp add: chunk_start_Cons_Suc add.assoc)
  qed
qed

text \<open>Every position of the concatenation lies in one of the chunks.\<close>

lemma position_in_chunk:
  "b < length (concat cs) \<Longrightarrow>
   \<exists>k<length cs. chunk_start cs k \<le> b \<and> b < chunk_start cs k + length (cs ! k)"
proof (induction cs arbitrary: b)
  case Nil
  then show ?case by simp
next
  case (Cons c cs)
  show ?case
  proof (cases "b < length c")
    case True
    then have "0 < length (c # cs) \<and> chunk_start (c # cs) 0 \<le> b
        \<and> b < chunk_start (c # cs) 0 + length ((c # cs) ! 0)"
      by (simp add: chunk_start_0)
    then show ?thesis by blast
  next
    case False
    with Cons.prems have "b - length c < length (concat cs)" by simp
    from Cons.IH [OF this] obtain k where
      k: "k < length cs" "chunk_start cs k \<le> b - length c"
         "b - length c < chunk_start cs k + length (cs ! k)" by blast
    from False k have "length c + chunk_start cs k \<le> b"
      "b < length c + chunk_start cs k + length (cs ! k)" by linarith+
    with k(1) have "Suc k < length (c # cs) \<and> chunk_start (c # cs) (Suc k) \<le> b
        \<and> b < chunk_start (c # cs) (Suc k) + length ((c # cs) ! Suc k)"
      by (simp add: chunk_start_Cons_Suc)
    then show ?thesis by blast
  qed
qed

lemma chunk_start_le_length: "chunk_start cs k \<le> length (concat cs)"
proof -
  have "concat cs = concat (take k cs) @ concat (drop k cs)"
    by (metis append_take_drop_id concat_append)
  then have "length (concat cs) = chunk_start cs k + length (concat (drop k cs))"
    by (simp add: chunk_start_def)
  then show ?thesis by simp
qed

lemma chunk_start_ge_length: "length cs \<le> k \<Longrightarrow> chunk_start cs k = length (concat cs)"
  by (simp add: chunk_start_def)

section \<open>The word-budget loop with delimiters in use\<close>

lemma line_contains_delimiter_iterate:
  "use_delimiters D \<Longrightarrow> line_contains_delimiter D l = any_in (iterate D) l"
  by (simp add: line_contains_delimiter_def)

text \<open>
  The loop's own split-point test agrees with the classifier of the delimiter-only
  splitter at every position but 0, which the loop never treats as a split point.
\<close>

lemma is_split_point_iff:
  assumes "use_delimiters D" "i < length ls"
  shows "is_split_point D ls i \<longleftrightarrow> 0 < i \<and> i \<in> set (split_points (iterate D) ls)"
proof (cases "i = 0")
  case True
  then show ?thesis by (simp add: is_split_point_def)
next
  case False
  have "find_prev_non_empty_line_is_delimiter D ls i =
      (if \<forall>j<i. is_blank (ls ! j) then False
       else (\<exists>p. prev_non_blank ls i p \<and> line_contains_delimiter D (ls ! p)))"
    unfolding find_prev_non_empty_line_is_delimiter_def
    by (rule skip_blank_back_decides)
  then have "find_prev_non_empty_line_is_delimiter D ls i =
      (if \<forall>j<i. is_blank (ls ! j) then False
       else (\<exists>p. prev_non_blank ls i p \<and> any_in (iterate D) (ls ! p)))"
    by (simp only: line_contains_delimiter_iterate [OF assms(1)])
  moreover have "(\<forall>j<i. is_blank (ls ! j)) \<or> (\<exists>p. prev_non_blank ls i p)"
    using skip_blank_back_cases [of ls i] by blast
  ultimately have "\<not> find_prev_non_empty_line_is_delimiter D ls i \<longleftrightarrow> real_split_point (iterate D) ls i"
    using False prev_non_blank_unique [of ls i] prev_non_blank_not_all_blank [of ls i]
    by (auto simp: real_split_point_iff)
  with False assms show ?thesis
    by (simp add: is_split_point_def set_split_points line_contains_delimiter_iterate)
qed


text \<open>
  The invariant of the loop: the current chunk is the run of lines from \<open>s\<close> to \<open>i\<close>,
  \<open>current_words\<close> is its word count, it started at line 0 or at a split point, and at
  every split point inside it the words gathered so far were fewer than the budget.
\<close>

lemma words_loop_budget_chunks:
  "use_delimiters D \<Longrightarrow> i \<le> length ls \<Longrightarrow> s \<le> i \<Longrightarrow> chunk = slice ls s i \<Longrightarrow> cw = chunk_words chunk \<Longrightarrow>
    s = 0 \<or> is_split_point D ls s \<Longrightarrow>
    \<forall>b\<in>{s<..<i}. is_split_point D ls b \<longrightarrow> chunk_words (slice ls s b) < W \<Longrightarrow>
    chunks_at (budget_chunk D ls W) s (chunks (words_loop D ls W i chunk cw fc))"
proof (induction D ls W i chunk cw fc arbitrary: s rule: words_loop.induct)
  case (1 D ls W i chunk cw fc)
  note ud = "1.prems"(1)
  have len: "length chunk = i - s" using "1.prems" by (simp add: length_slice)
  have end_eq: "s + length chunk = i" using len "1.prems" by simp
  show ?case
  proof (cases "i < length ls")
    case False
    then have i: "i = length ls" using "1.prems" by simp
    have "budget_chunk D ls W s chunk" if "chunk \<noteq> []"
      unfolding budget_chunk_def end_eq using that "1.prems" i by simp
    with False show ?thesis
      by (subst words_loop.simps) simp
  next
    case True
    show ?thesis
    proof (cases "W \<le> cw \<and> is_split_point D ls i \<and> chunk \<noteq> []")
      case flush: True
      have bc: "budget_chunk D ls W s chunk"
        unfolding budget_chunk_def end_eq using flush "1.prems" True by simp
      have "chunks_at (budget_chunk D ls W) i (chunks (words_loop D ls W i [] 0 (fc + 1)))"
        using True flush ud by (intro "1.IH"(1)) (simp_all add: slice_same chunk_words_Nil)
      with bc True flush end_eq show ?thesis
        by (subst words_loop.simps) simp
    next
      case noflush: False
      have inside: "\<forall>b\<in>{s<..<i + 1}. is_split_point D ls b \<longrightarrow> chunk_words (slice ls s b) < W"
      proof (intro ballI impI)
        fix b assume b: "b \<in> {s<..<i + 1}" "is_split_point D ls b"
        show "chunk_words (slice ls s b) < W"
        proof (cases "b = i")
          case False
          with b "1.prems" show ?thesis by simp
        next
          case True
          with b have "s < i" by simp
          then have "chunk \<noteq> []" using len by auto
          with noflush b(2) True "1.prems" show ?thesis by simp
        qed
      qed
      have "chunks_at (budget_chunk D ls W) s
          (chunks (words_loop D ls W (i + 1) (chunk @ [ls ! i]) (cw + line_words (ls ! i)) fc))"
        using True noflush ud "1.prems"(3,4,5,6) inside
        by (intro "1.IH"(3)) (simp_all add: slice_Suc chunk_words_append chunk_words_single)
      with True noflush ud show ?thesis
        by (subst words_loop.simps) auto
    qed
  qed
qed

lemma split_file_by_words_budget_chunks:
  "use_delimiters D \<Longrightarrow>
   chunks_at (budget_chunk D ls W) 0 (chunks (split_file_by_words D ls W))"
  unfolding split_file_by_words_def
  by (cases "ls = []")
     (simp_all add: words_loop_budget_chunks slice_same chunk_words_Nil)

lemma budget_chunk_nth:
  "use_delimiters D \<Longrightarrow> cs = chunks (split_file_by_words D ls W) \<Longrightarrow> k < length cs \<Longrightarrow>
   budget_chunk D ls W (chunk_start cs k) (cs ! k)"
  using chunks_at_nth [OF split_file_by_words_budget_chunks, of D k ls W] by simp


lemma hd_slice: "slice xs s e \<noteq> [] \<Longrightarrow> hd (slice xs s e) = xs ! s"
proof -
  assume a: "slice xs s e \<noteq> []"
  then have "0 < e - s" "s < length xs" by (auto simp: slice_def)
  then show ?thesis by (simp add: slice_def hd_drop_conv_nth)
qed

text \<open>
  Claim C5. With delimiters in use, wherever the word-budget splitter starts a new
  chunk, the chunk it has just written is non-empty and holds at least the budget, and
  the line the new chunk starts with is a Boundary; so every chunk but the last holds at
  least the budget.
\<close>

theorem flush_only_at_full_boundary:
  assumes "use_delimiters D" and "cs = chunks (split_file_by_words D ls W)"
    and "Suc k < length cs"
  shows "cs ! k \<noteq> [] \<and> W \<le> chunk_words (cs ! k)
     \<and> chunk_start cs (Suc k) \<in> set (split_points (iterate D) ls)
     \<and> hd (cs ! Suc k) = ls ! chunk_start cs (Suc k)"
proof -
  have k: "k < length cs" using assms(3) by simp
  have nxt: "chunk_start cs (Suc k) = chunk_start cs k + length (cs ! k)"
    using k by (rule chunk_start_Suc)
  have b1: "budget_chunk D ls W (chunk_start cs (Suc k)) (cs ! Suc k)"
    using assms by (rule budget_chunk_nth)
  then have "cs ! Suc k \<noteq> []" "chunk_start cs (Suc k) + length (cs ! Suc k) \<le> length ls"
    by (simp_all add: budget_chunk_def)
  then have lt: "chunk_start cs k + length (cs ! k) < length ls"
    unfolding nxt by (cases "cs ! Suc k") auto
  have b0: "budget_chunk D ls W (chunk_start cs k) (cs ! k)"
    using assms(1,2) k by (rule budget_chunk_nth)
  with lt have c: "cs ! k \<noteq> []" "W \<le> chunk_words (cs ! k)"
    "is_split_point D ls (chunk_start cs (Suc k))"
    unfolding nxt by (simp_all add: budget_chunk_def)
  from c(3) lt have "chunk_start cs (Suc k) \<in> set (split_points (iterate D) ls)"
    using is_split_point_iff [OF assms(1), of "chunk_start cs (Suc k)" ls]
    unfolding nxt by simp
  moreover have "hd (cs ! Suc k) = ls ! chunk_start cs (Suc k)"
    using b1 hd_slice [of ls "chunk_start cs (Suc k)"] unfolding budget_chunk_def by metis
  ultimately show ?thesis using c by simp
qed

theorem flush_only_at_full_boundary_witness:
  "chunks (split_file_by_words (Strs [''-- Chat:''])
      [''-- Chat: A\<newline>'', ''a b c\<newline>'', ''-- Chat: B\<newline>'', ''d e f\<newline>'',
       ''-- Chat: C\<newline>'', ''x\<newline>''] 7) ! 0 \<noteq> []
   \<and> 7 \<le> chunk_words (chunks (split_file_by_words (Strs [''-- Chat:''])
      [''-- Chat: A\<newline>'', ''a b c\<newline>'', ''-- Chat: B\<newline>'', ''d e f\<newline>'',
       ''-- Chat: C\<newline>'', ''x\<newline>''] 7) ! 0)
   \<and> chunk_start (chunks (split_file_by_words (Strs [''-- Chat:''])
      [''-- Chat: A\<newline>'', ''a b c\<newline>'', ''-- Chat: B\<newline>'', ''d e f\<newline>'',
       ''-- Chat: C\<newline>'', ''x\<newline>''] 7)) (Suc 0) = 4"
proof -
  let ?D = "Strs [''-- Chat:'']"
  let ?ls = "[''-- Chat: A\<newline>'', ''a b c\<newline>'', ''-- Chat: B\<newline>'', ''d e f\<newline>'',
       ''-- Chat: C\<newline>'', ''x\<newline>'']"
  let ?cs = "chunks (split_file_by_words ?D ?ls 7)"
  have h1: "use_delimiters ?D" by code_simp
  have h2: "Suc 0 < length ?cs" by code_simp
  have h3: "chunk_start ?cs (Suc 0) = 4" by code_simp
  from flush_only_at_full_boundary [OF h1 refl h2] h3
  show ?thesis by simp
qed


lemma later_chunk_starts_at_split_point:
  assumes "use_delimiters D" and "cs = chunks (split_file_by_words D ls W)"
    and "0 < k" and "k < length cs"
  shows "is_split_point D ls (chunk_start cs k) \<and> chunk_start cs k < length ls"
proof -
  from assms(3) obtain m where km: "k = Suc m" by (cases k) auto
  then have m: "m < length cs" using assms(4) by simp
  have "budget_chunk D ls W (chunk_start cs m) (cs ! m)"
    using assms(1,2) m by (rule budget_chunk_nth)
  then have "cs ! m \<noteq> []" by (simp add: budget_chunk_def)
  then have pos: "0 < chunk_start cs k"
    using chunk_start_Suc [OF m] km by simp
  have bc: "budget_chunk D ls W (chunk_start cs k) (cs ! k)"
    using assms(1,2,4) by (rule budget_chunk_nth)
  then have "cs ! k \<noteq> []" "chunk_start cs k + length (cs ! k) \<le> length ls"
    by (simp_all add: budget_chunk_def)
  then have "chunk_start cs k < length ls" by (cases "cs ! k") auto
  moreover from bc pos have "is_split_point D ls (chunk_start cs k)"
    by (simp add: budget_chunk_def)
  ultimately show ?thesis by simp
qed

text \<open>
  Claim C4. With delimiters in use, every chunk of the word-budget splitter is the run
  of input lines from where it starts; the first starts at line 0 and every other one at
  a Boundary. Hence a span of lines \<open>b..e-1\<close> with no Boundary after its first line,
  such as a section, however many words it holds, lies whole inside one chunk.
\<close>

theorem chunks_start_at_boundaries:
  assumes "use_delimiters D" and "cs = chunks (split_file_by_words D ls W)"
  shows "(k < length cs \<longrightarrow>
            cs ! k = slice ls (chunk_start cs k) (chunk_start cs k + length (cs ! k))
            \<and> (k = 0 \<or> chunk_start cs k \<in> set (split_points (iterate D) ls)))
     \<and> (b < e \<and> e \<le> length ls \<and> (\<forall>j\<in>{b<..<e}. j \<notin> set (split_points (iterate D) ls))
          \<longrightarrow> (\<exists>m<length cs. chunk_start cs m \<le> b \<and> e \<le> chunk_start cs m + length (cs ! m)))"
proof (intro conjI impI)
  assume k: "k < length cs"
  have bc: "budget_chunk D ls W (chunk_start cs k) (cs ! k)"
    using assms k by (rule budget_chunk_nth)
  then show "cs ! k = slice ls (chunk_start cs k) (chunk_start cs k + length (cs ! k))"
    by (simp add: budget_chunk_def)
  show "k = 0 \<or> chunk_start cs k \<in> set (split_points (iterate D) ls)"
  proof (cases "k = 0")
    case True
    then show ?thesis by simp
  next
    case False
    then have "is_split_point D ls (chunk_start cs k) \<and> chunk_start cs k < length ls"
      using assms k by (intro later_chunk_starts_at_split_point) auto
    then show ?thesis
      using is_split_point_iff [OF assms(1), of "chunk_start cs k" ls] by simp
  qed
next
  assume h: "b < e \<and> e \<le> length ls \<and> (\<forall>j\<in>{b<..<e}. j \<notin> set (split_points (iterate D) ls))"
  have cat: "concat cs = ls"
    unfolding assms(2) by (rule concat_split_file_by_words)
  with h have "b < length (concat cs)" by simp
  from position_in_chunk [OF this] obtain m where
    m: "m < length cs" "chunk_start cs m \<le> b" "b < chunk_start cs m + length (cs ! m)"
    by blast
  have "e \<le> chunk_start cs m + length (cs ! m)"
  proof (rule ccontr)
    assume "\<not> e \<le> chunk_start cs m + length (cs ! m)"
    then have lt: "chunk_start cs (Suc m) < e"
      using chunk_start_Suc [OF m(1)] by simp
    have "Suc m < length cs"
    proof (rule ccontr)
      assume "\<not> Suc m < length cs"
      then have "chunk_start cs (Suc m) = length (concat cs)"
        by (intro chunk_start_ge_length) simp
      with cat lt h show False by simp
    qed
    then have "is_split_point D ls (chunk_start cs (Suc m))
        \<and> chunk_start cs (Suc m) < length ls"
      using assms by (intro later_chunk_starts_at_split_point) auto
    then have "chunk_start cs (Suc m) \<in> set (split_points (iterate D) ls)"
      using is_split_point_iff [OF assms(1), of "chunk_start cs (Suc m)" ls] by simp
    moreover have "chunk_start cs (Suc m) \<in> {b<..<e}"
      using lt m(3) chunk_start_Suc [OF m(1)] by simp
    ultimately show False using h by blast
  qed
  with m show "\<exists>m<length cs. chunk_start cs m \<le> b \<and> e \<le> chunk_start cs m + length (cs ! m)"
    by blast
qed

theorem chunks_start_at_boundaries_witness:
  "chunk_start (chunks (split_file_by_words (Strs [''-- Chat:''])
      [''-- Chat: A\<newline>'', ''a b c\<newline>'', ''-- Chat: B\<newline>'', ''d e f\<newline>'',
       ''-- Chat: C\<newline>'', ''x\<newline>''] 2)) 1
     \<in> set (split_points (iterate (Strs [''-- Chat:'']))
      [''-- Chat: A\<newline>'', ''a b c\<newline>'', ''-- Chat: B\<newline>'', ''d e f\<newline>'',
       ''-- Chat: C\<newline>'', ''x\<newline>''])
   \<and> (\<exists>m<length (chunks (split_file_by_words (Strs [''-- Chat:''])
      [''-- Chat: A\<newline>'', ''a b c\<newline>'', ''-- Chat: B\<newline>'', ''d e f\<newline>'',
       ''-- Chat: C\<newline>'', ''x\<newline>''] 2)).
        chunk_start (chunks (split_file_by_words (Strs [''-- Chat:''])
      [''-- Chat: A\<newline>'', ''a b c\<newline>'', ''-- Chat: B\<newline>'', ''d e f\<newline>'',
       ''-- Chat: C\<newline>'', ''x\<newline>''] 2)) m \<le> 2
        \<and> 4 \<le> chunk_start (chunks (split_file_by_words (Strs [''-- Chat:''])
      [''-- Chat: A\<newline>'', ''a b c\<newline>'', ''-- Chat: B\<newline>'', ''d e f\<newline>'',
       ''-- Chat: C\<newline>'', ''x\<newline>''] 2)) m
          + length (chunks (split_file_by_words (Strs [''-- Chat:''])
      [''-- Chat: A\<newline>'', ''a b c\<newline>'', ''-- Chat: B\<newline>'', ''d e f\<newline>'',
       ''-- Chat: C\<newline>'', ''x\<newline>''] 2) ! m))"
proof -
  let ?D = "Strs [''-- Chat:'']"
  let ?ls = "[''-- Chat: A\<newline>'', ''a b c\<newline>'', ''-- Chat: B\<newline>'', ''d e f\<newline>'',
       ''-- Chat: C\<newline>'', ''x\<newline>'']"
  let ?cs = "chunks (split_file_by_words ?D ?ls 2)"
  have h1: "use_delimiters ?D" by code_simp
  have h2: "(1::nat) < length ?cs \<and> (1::nat) \<noteq> 0" by code_simp
  have h3: "(2::nat) < 4 \<and> 4 \<le> length ?ls
      \<and> (\<forall>j\<in>{2<..<4}. j \<notin> set (split_points (iterate ?D) ?ls))" by code_simp
  from chunks_start_at_boundaries [OF h1 refl, of 1 ?ls 2 2 4] h2 h3
  show ?thesis by blast
qed

text \<open>
  Claim C3, as amended. With delimiters in use, at every Boundary that lies inside a
  chunk of the word-budget splitter (after its first line) the words of the chunk up to
  there are fewer than the budget; so the chunk holds fewer words than the budget plus
  what it holds from that Boundary on, its last section included. The budget is tested
  only when a Boundary is reached and only against the words gathered before it, so a
  chunk may exceed the budget, and a chunk that does may hold several sections.
\<close>

theorem budget_met_only_by_last_section:
  assumes "use_delimiters D" and "cs = chunks (split_file_by_words D ls W)"
    and "k < length cs" and "b \<in> set (split_points (iterate D) ls)"
    and "chunk_start cs k < b" and "b < chunk_start cs k + length (cs ! k)"
  shows "chunk_words (take (b - chunk_start cs k) (cs ! k)) < W
     \<and> chunk_words (cs ! k) < W + chunk_words (drop (b - chunk_start cs k) (cs ! k))"
proof -
  let ?s = "chunk_start cs k"
  have bc: "budget_chunk D ls W ?s (cs ! k)"
    using assms(1,2,3) by (rule budget_chunk_nth)
  then have sl: "cs ! k = slice ls ?s (?s + length (cs ! k))"
    and le: "?s + length (cs ! k) \<le> length ls"
    and inside: "\<forall>b\<in>{?s<..<?s + length (cs ! k)}.
        is_split_point D ls b \<longrightarrow> chunk_words (slice ls ?s b) < W"
    by (simp_all add: budget_chunk_def)
  have "b < length ls" "0 < b" using assms(5,6) le by simp_all
  then have "is_split_point D ls b"
    using is_split_point_iff [OF assms(1), of b ls] assms(4) by simp
  with inside assms(5,6) have lt: "chunk_words (slice ls ?s b) < W" by simp
  have "take (b - ?s) (slice ls ?s (?s + length (cs ! k))) = slice ls ?s b"
    using assms(6) by (intro take_slice) simp
  with sl have tk: "take (b - ?s) (cs ! k) = slice ls ?s b" by simp
  have "chunk_words (cs ! k)
      = chunk_words (take (b - ?s) (cs ! k)) + chunk_words (drop (b - ?s) (cs ! k))"
    by (simp flip: chunk_words_append)
  with lt tk show ?thesis by simp
qed

theorem budget_met_only_by_last_section_witness:
  "chunk_words (take (2 - chunk_start (chunks (split_file_by_words (Strs [''-- Chat:''])
      [''-- Chat: A\<newline>'', ''a b c\<newline>'', ''-- Chat: B\<newline>'', ''d e f\<newline>'',
       ''-- Chat: C\<newline>'', ''x\<newline>''] 7)) 0)
     (chunks (split_file_by_words (Strs [''-- Chat:''])
      [''-- Chat: A\<newline>'', ''a b c\<newline>'', ''-- Chat: B\<newline>'', ''d e f\<newline>'',
       ''-- Chat: C\<newline>'', ''x\<newline>''] 7) ! 0)) < 7"
proof -
  let ?D = "Strs [''-- Chat:'']"
  let ?ls = "[''-- Chat: A\<newline>'', ''a b c\<newline>'', ''-- Chat: B\<newline>'', ''d e f\<newline>'',
       ''-- Chat: C\<newline>'', ''x\<newline>'']"
  let ?cs = "chunks (split_file_by_words ?D ?ls 7)"
  have h1: "use_delimiters ?D" by code_simp
  have h3: "0 < length ?cs" by code_simp
  have h4: "2 \<in> set (split_points (iterate ?D) ?ls)" by code_simp
  have h5: "chunk_start ?cs 0 < 2" by code_simp
  have h6: "2 < chunk_start ?cs 0 + length (?cs ! 0)" by code_simp
  from budget_met_only_by_last_section [OF h1 refl h3 h4 h5 h6]
  show ?thesis by simp
qed

text \<open>
  With the budget 7, the first chunk holds the two sections that start at lines 0 and
  2, of 6 words each: 12 words in a chunk of more than one section.
\<close>

theorem two_sections_over_budget_counterexample:
  "0 < (7::int) \<and> use_delimiters (Strs [''-- Chat:''])
   \<and> chunks (split_file_by_words (Strs [''-- Chat:''])
        [''-- Chat: A\<newline>'', ''a b c\<newline>'', ''-- Chat: B\<newline>'', ''d e f\<newline>'',
         ''-- Chat: C\<newline>'', ''x\<newline>''] 7)
      = [[''-- Chat: A\<newline>'', ''a b c\<newline>'', ''-- Chat: B\<newline>'', ''d e f\<newline>''],
         [''-- Chat: C\<newline>'', ''x\<newline>'']]
   \<and> chunk_words [''-- Chat: A\<newline>'', ''a b c\<newline>'', ''-- Chat: B\<newline>'', ''d e f\<newline>''] = 12
   \<and> split_points (iterate (Strs [''-- Chat:'']))
        [''-- Chat: A\<newline>'', ''a b c\<newline>'', ''-- Chat: B\<newline>'', ''d e f\<newline>'',
         ''-- Chat: C\<newline>'', ''x\<newline>''] = [0, 2, 4]
   \<and> chunk_words [''-- Chat: A\<newline>'', ''a b c\<newline>''] = 6
   \<and> chunk_words [''-- Chat: B\<newline>'', ''d e f\<newline>''] = 6"
  by code_simp

section \<open>The greedy loop without delimiters\<close>

lemma is_split_point_no_delimiters: "\<not> use_delimiters D \<Longrightarrow> \<not> is_split_point D ls i"
  by (simp add: is_split_point_def)

text \<open>
  Without delimiters the loop of the delimiter-aware script is the loop of the
  simplified script, on the lines still to be read.
\<close>

lemma words_loop_simple_eq:
  "\<not> use_delimiters D \<Longrightarrow> i \<le> length ls \<Longrightarrow>
   words_loop D ls W i chunk cw fc = words_loop_simple W (drop i ls) chunk cw fc"
proof (induction D ls W i chunk cw fc rule: words_loop.induct)
  case (1 D ls W i chunk cw fc)
  note nd = "1.prems"(1)
  note nsp = is_split_point_no_delimiters [OF nd]
  show ?case
  proof (cases "i < length ls")
    case False
    with "1.prems" show ?thesis
      by (subst words_loop.simps) simp
  next
    case True
    then have d: "drop i ls = ls ! i # drop (Suc i) ls"
      by (simp add: Cons_nth_drop_Suc)
    show ?thesis
    proof (cases "W < cw + line_words (ls ! i) \<and> chunk \<noteq> []")
      case flush: True
      have "words_loop D ls W (i + 1) ([] @ [ls ! i]) (0 + line_words (ls ! i)) (fc + 1)
          = words_loop_simple W (drop (i + 1) ls) ([] @ [ls ! i]) (0 + line_words (ls ! i)) (fc + 1)"
        using True flush nd nsp by (intro "1.IH"(2)) auto
      with True flush nd nsp show ?thesis
        by (subst words_loop.simps) (simp add: d)
    next
      case noflush: False
      have "words_loop D ls W (i + 1) (chunk @ [ls ! i]) (cw + line_words (ls ! i)) fc
          = words_loop_simple W (drop (i + 1) ls) (chunk @ [ls ! i]) (cw + line_words (ls ! i)) fc"
        using True noflush nd nsp by (intro "1.IH"(3)) auto
      with True noflush nd nsp show ?thesis
        by (subst words_loop.simps) (auto simp: d)
    qed
  qed
qed

lemma split_file_by_words_simple_eq:
  "\<not> use_delimiters D \<Longrightarrow> split_file_by_words D ls W = split_file_by_words_simple ls W"
  by (simp add: split_file_by_words_def split_file_by_words_simple_def words_loop_simple_eq)

lemma concat_words_loop_simple:
  "concat (chunks (words_loop_simple W f chunk cw fc)) = chunk @ f"
  by (induction f arbitrary: chunk cw fc) auto

text \<open>A chunk that is not empty is written, sooner or later, with its first line first.\<close>

lemma words_loop_simple_first:
  "chunk \<noteq> [] \<Longrightarrow>
   chunks (words_loop_simple W f chunk cw fc) \<noteq> []
   \<and> hd (chunks (words_loop_simple W f chunk cw fc)) \<noteq> []
   \<and> hd (hd (chunks (words_loop_simple W f chunk cw fc))) = hd chunk"
  by (induction f arbitrary: chunk cw fc) auto

lemma words_loop_simple_greedy:
  "cw = chunk_words chunk \<Longrightarrow>
   \<forall>n\<in>{0<..<length chunk}. chunk_words (take n chunk) + line_words (chunk ! n) \<le> W \<Longrightarrow>
   greedy_chunks W (chunks (words_loop_simple W f chunk cw fc))"
proof (induction f arbitrary: chunk cw fc)
  case Nil
  then show ?case by simp
next
  case (Cons line rest)
  show ?case
  proof (cases "W < cw + line_words line \<and> chunk \<noteq> []")
    case True
    let ?out = "chunks (words_loop_simple W rest [line] (line_words line) (fc + 1))"
    have first: "?out \<noteq> [] \<and> hd ?out \<noteq> [] \<and> hd (hd ?out) = line"
      using words_loop_simple_first [of "[line]" W rest "line_words line" "fc + 1"] by simp
    have rest_ok: "greedy_chunks W ?out"
      by (intro Cons.IH) (simp_all add: chunk_words_single)
    from first obtain d ds where out: "?out = d # ds" by (cases ?out) auto
    with first have "d \<noteq> []" "hd d = line" by simp_all
    with True Cons.prems rest_ok out show ?thesis by simp
  next
    case False
    have inside: "\<forall>n\<in>{0<..<length (chunk @ [line])}.
        chunk_words (take n (chunk @ [line])) + line_words ((chunk @ [line]) ! n) \<le> W"
    proof
      fix n assume n: "n \<in> {0<..<length (chunk @ [line])}"
      show "chunk_words (take n (chunk @ [line])) + line_words ((chunk @ [line]) ! n) \<le> W"
      proof (cases "n < length chunk")
        case True
        with n Cons.prems(2) show ?thesis by (simp add: nth_append)
      next
        case False
        with n have eq: "n = length chunk" by simp
        then have "chunk \<noteq> []" using n by auto
        with \<open>\<not> (W < cw + line_words line \<and> chunk \<noteq> [])\<close> Cons.prems(1) eq
        show ?thesis by simp
      qed
    qed
    have "greedy_chunks W (chunks (words_loop_simple W rest (chunk @ [line])
        (cw + line_words line) fc))"
      using Cons.prems(1) inside
      by (intro Cons.IH) (simp_all add: chunk_words_append chunk_words_single)
    with False show ?thesis by auto
  qed
qed

lemma greedy_chunks_nth:
  "greedy_chunks W cs \<Longrightarrow> k < length cs \<Longrightarrow>
   cs ! k \<noteq> []
   \<and> (\<forall>n\<in>{0<..<length (cs ! k)}. chunk_words (take n (cs ! k)) + line_words (cs ! k ! n) \<le> W)
   \<and> (Suc k < length cs \<longrightarrow> W < chunk_words (cs ! k) + line_words (hd (cs ! Suc k)))"
proof (induction cs arbitrary: k)
  case Nil
  then show ?case by simp
next
  case (Cons c cs)
  show ?case
  proof (cases k)
    case 0
    with Cons.prems show ?thesis by (cases cs) auto
  next
    case (Suc m)
    with Cons.prems have "greedy_chunks W cs" "m < length cs" by auto
    from Cons.IH [OF this] Suc show ?thesis by simp
  qed
qed

text \<open>A chunk all of whose appends fitted the budget holds one line or fits the budget.\<close>

lemma fitted_chunk_bound:
  assumes "c \<noteq> []"
    and "\<forall>n\<in>{0<..<length c}. chunk_words (take n c) + line_words (c ! n) \<le> W"
  shows "chunk_words c \<le> W \<or> (length c = 1 \<and> W < line_words (hd c))"
proof (cases "length c = 1")
  case True
  then obtain l where "c = [l]" by (cases c) auto
  then show ?thesis by (auto simp: chunk_words_single)
next
  case False
  with assms(1) have n: "length c - 1 \<in> {0<..<length c}"
    by (cases c) auto
  have "c = take (length c - 1) c @ [c ! (length c - 1)]"
    using assms(1) by (metis butlast_conv_take last_conv_nth snoc_eq_iff_butlast)
  then have "chunk_words c = chunk_words (take (length c - 1) c) + line_words (c ! (length c - 1))"
    by (metis chunk_words_append chunk_words_single)
  with assms(2) n show ?thesis by auto
qed

lemma line_words_nonneg: "0 \<le> line_words l"
  by (simp add: line_words_def)


text \<open>
  Claim C6, as amended. Without delimiters (in the simplified script, and in the
  delimiter-aware script when no delimiter is configured) the chunks \<open>cs\<close> of the
  word splitter are the input cut greedily: every line appended to a non-empty chunk
  kept it within the budget, and the first line of the next chunk would have taken it
  over the budget, the test being made before the append. Hence a chunk is within the
  budget unless it consists of one line that alone exceeds the budget; and for a
  positive budget no chunk exceeds it by more than the word count of its last line.
\<close>

theorem greedy_flush_before_append:
  assumes "cs = chunks (split_file_by_words_simple ls W)
      \<or> (\<not> use_delimiters D \<and> cs = chunks (split_file_by_words D ls W))"
    and "k < length cs"
  shows "concat cs = ls \<and> cs ! k \<noteq> []
     \<and> (\<forall>n\<in>{0<..<length (cs ! k)}.
            chunk_words (take n (cs ! k)) + line_words (cs ! k ! n) \<le> W)
     \<and> (Suc k < length cs \<longrightarrow> W < chunk_words (cs ! k) + line_words (hd (cs ! Suc k)))
     \<and> (chunk_words (cs ! k) \<le> W \<or> (length (cs ! k) = 1 \<and> W < line_words (hd (cs ! k))))
     \<and> (0 < W \<longrightarrow> chunk_words (cs ! k) \<le> W + line_words (last (cs ! k)))"
proof -
  have cs: "cs = chunks (split_file_by_words_simple ls W)"
    using assms(1) split_file_by_words_simple_eq [of D ls W] by auto
  have cat: "concat cs = ls"
    unfolding cs split_file_by_words_simple_def by (simp add: concat_words_loop_simple)
  have "greedy_chunks W cs"
    unfolding cs split_file_by_words_simple_def
    by (intro words_loop_simple_greedy) (simp_all add: chunk_words_Nil)
  from greedy_chunks_nth [OF this assms(2)]
  have ne: "cs ! k \<noteq> []"
    and fit: "\<forall>n\<in>{0<..<length (cs ! k)}.
            chunk_words (take n (cs ! k)) + line_words (cs ! k ! n) \<le> W"
    and nxt: "Suc k < length cs \<longrightarrow> W < chunk_words (cs ! k) + line_words (hd (cs ! Suc k))"
    by simp_all
  have bound: "chunk_words (cs ! k) \<le> W \<or> (length (cs ! k) = 1 \<and> W < line_words (hd (cs ! k)))"
    using ne fit by (rule fitted_chunk_bound)
  have "chunk_words (cs ! k) \<le> W + line_words (last (cs ! k))" if "0 < W"
  proof (cases "chunk_words (cs ! k) \<le> W")
    case True
    then show ?thesis using line_words_nonneg [of "last (cs ! k)"] by simp
  next
    case False
    with bound have "length (cs ! k) = 1" by simp
    then obtain l where "cs ! k = [l]" by (cases "cs ! k") auto
    with that show ?thesis by (simp add: chunk_words_single)
  qed
  with cat ne fit nxt bound show ?thesis by simp
qed

theorem greedy_flush_before_append_witness:
  "chunks (split_file_by_words (Strs [])
      [''a b c\<newline>'', ''d\<newline>'', ''e\<newline>'', ''f g\<newline>''] 2) ! 1 \<noteq> []
   \<and> 2 < chunk_words (chunks (split_file_by_words (Strs [])
      [''a b c\<newline>'', ''d\<newline>'', ''e\<newline>'', ''f g\<newline>''] 2) ! 1)
        + line_words (hd (chunks (split_file_by_words (Strs [])
      [''a b c\<newline>'', ''d\<newline>'', ''e\<newline>'', ''f g\<newline>''] 2) ! Suc 1))
   \<and> chunk_words (chunks (split_file_by_words (Strs [])
      [''a b c\<newline>'', ''d\<newline>'', ''e\<newline>'', ''f g\<newline>''] 2) ! 1) \<le> 2"
proof -
  let ?D = "Strs []"
  let ?ls = "[''a b c\<newline>'', ''d\<newline>'', ''e\<newline>'', ''f g\<newline>'']"
  let ?cs = "chunks (split_file_by_words ?D ?ls 2)"
  have h1: "?cs = chunks (split_file_by_words_simple ?ls 2)
      \<or> (\<not> use_delimiters ?D \<and> ?cs = chunks (split_file_by_words ?D ?ls 2))"
    by code_simp
  have h2: "1 < length ?cs" by code_simp
  have h3: "Suc 1 < length ?cs" by code_simp
  have h4: "\<not> (length (?cs ! 1) = 1 \<and> 2 < line_words (hd (?cs ! 1)))" by code_simp
  from greedy_flush_before_append [OF h1 h2] h3 h4
  show ?thesis by blast
qed

text \<open>
  A line of three words under the budget 2: it is appended to the empty chunk, which
  then holds more than the budget.
\<close>

theorem oversized_line_counterexample:
  "0 < (2::int) \<and> \<not> use_delimiters (Strs [])
   \<and> chunks (split_file_by_words (Strs []) [''a b c\<newline>''] 2) = [[''a b c\<newline>'']]
   \<and> chunks (split_file_by_words_simple [''a b c\<newline>''] 2) = [[''a b c\<newline>'']]
   \<and> chunk_words [''a b c\<newline>''] = 3"
  by code_simp

section \<open>The part numbers of the delimiter-only splitter\<close>

lemma part_numbers_write_sections:
  "sorted_wrt (<) sp \<Longrightarrow> \<forall>i\<in>set sp. i < length ls \<Longrightarrow>
   part_numbers (write_sections ls sp fc) = [fc + 1 ..< fc + 1 + length sp]"
proof (induction sp arbitrary: fc)
  case Nil
  then show ?case by simp
next
  case (Cons s rest)
  have ne: "slice ls s (case rest of [] \<Rightarrow> length ls | e # _ \<Rightarrow> e) \<noteq> []"
    using Cons.prems by (cases rest) (auto simp: slice_def)
  then have ws: "write_sections ls (s # rest) fc =
      WritePart (fc + 1) (slice ls s (case rest of [] \<Rightarrow> length ls | e # _ \<Rightarrow> e))
        # write_sections ls rest (fc + 1)"
    by (simp add: Let_def)
  have ih: "part_numbers (write_sections ls rest (fc + 1)) = [fc + 1 + 1 ..< fc + 1 + 1 + length rest]"
    using Cons.prems by (intro Cons.IH) auto
  have up: "[fc + 1 ..< fc + 1 + length (s # rest)] = (fc + 1) # [fc + 1 + 1 ..< fc + 1 + 1 + length rest]"
    by (simp add: upt_conv_Cons del: upt_Suc)
  show ?case
    unfolding ws up by (simp only: part_numbers.simps ih)
qed

text \<open>
  The numbers the parts are written under: 1, 2, 3, ... when the first line is a split
  point, and 0, 2, 3, ... when a header comes first, since \<open>file_count\<close> is raised
  after the header and again before the first section.
\<close>

lemma part_numbers_split_file_by_delimiter:
  assumes "split_points (as_list delimiters) all_lines \<noteq> []"
  shows "part_numbers (split_file_by_delimiter all_lines delimiters) =
     (if hd (split_points (as_list delimiters) all_lines) > 0
      then 0 # [2 ..< 2 + length (split_points (as_list delimiters) all_lines)]
      else [1 ..< 1 + length (split_points (as_list delimiters) all_lines)])"
proof -
  let ?sp = "split_points (as_list delimiters) all_lines"
  have pn: "\<And>fc. part_numbers (write_sections all_lines ?sp fc) = [fc + 1 ..< fc + 1 + length ?sp]"
    using sorted_split_points split_points_less by (intro part_numbers_write_sections) auto
  have "delimiter_indices (as_list delimiters) all_lines = [] \<Longrightarrow> ?sp = []"
    by (simp add: split_points_def)
  with assms have di: "delimiter_indices (as_list delimiters) all_lines \<noteq> []" by blast
  then have "all_lines \<noteq> []" by (auto simp: delimiter_indices_def)
  with di assms have run: "split_file_by_delimiter all_lines delimiters =
      (if hd ?sp > 0
       then WritePart 0 (slice all_lines 0 (hd ?sp)) # write_sections all_lines ?sp 1
       else write_sections all_lines ?sp 0)"
    unfolding split_file_by_delimiter_def Let_def by (simp only: if_False if_True not_False_eq_True)
  have pn1: "part_numbers (write_sections all_lines ?sp 1) = [2 ..< 2 + length ?sp]"
    using pn [of 1] by (simp only: one_add_one)
  have pn0: "part_numbers (write_sections all_lines ?sp 0) = [1 ..< 1 + length ?sp]"
    using pn [of 0] by (simp only: add_0)
  show ?thesis
  proof (cases "hd ?sp > 0")
    case True
    then show ?thesis
      unfolding run by (simp only: if_True part_numbers.simps pn1)
  next
    case False
    then show ?thesis
      unfolding run by (simp only: if_False pn0)
  qed
qed

text \<open>
  Claim C7 fails on the code. A file with one line before its first delimiter line is
  written as parts 0 and 2: the header takes the number 0, and the first section the
  number 2, so no file \<open>book_part_1.txt\<close> is written.
\<close>

theorem header_part_numbers_skip_one:
  "split_file_by_delimiter [''intro\<newline>'', ''-- Chat: A\<newline>'', ''hello\<newline>'']
      (Strs [''-- Chat:''])
     = [WritePart 0 [''intro\<newline>''], WritePart 2 [''-- Chat: A\<newline>'', ''hello\<newline>'']]
   \<and> map (output_filename ''book'' ''.txt'')
        (part_numbers (split_file_by_delimiter
           [''intro\<newline>'', ''-- Chat: A\<newline>'', ''hello\<newline>''] (Strs [''-- Chat:''])))
     = [''book_part_0.txt'', ''book_part_2.txt'']"
  by code_simp

end
